theory Spec2Isabelle
  imports Complex_Main "HOL-Library.Char_ord" "HOL-Library.List_Lexorder"
    "HOL-Library.Product_Lexorder" "HOL-Library.Sublist"
begin

section \<open>The file system as the scanner sees it\<close>

text \<open>
  A \<open>pathlib.Path\<close> is modelled by its \<open>parts\<close>: the list of its components, the first
  of which is \<open>''/''\<close> for an absolute POSIX path.
\<close>

type_synonym path = "string list"

text \<open>The exceptions of the operating system that the code distinguishes.\<close>

datatype os_error = PermissionError | FileNotFoundError | NotADirectoryError | OSError

text \<open>The fields of \<open>os.stat_result\<close> that \<open>scan_pdfs\<close> reads.\<close>

record stat_result =
  st_size :: nat
  st_mtime :: nat

text \<open>
  One \<open>os.DirEntry\<close> of a listing, classified without following symlinks:
  \<^item> \<open>File n st\<close>: \<open>is_file(follow_symlinks=False)\<close> is true; \<open>st\<close> is what a later
    \<open>Path.stat()\<close> returns, \<open>None\<close> when it raises;
  \<^item> \<open>Dir n err es\<close>: \<open>is_dir(follow_symlinks=False)\<close> is true; \<open>err\<close> is the exception
    \<open>os.scandir\<close> raises on it, if any, and \<open>es\<close> is what the directory holds;
  \<^item> \<open>Symlink n target\<close>: a symbolic link to \<open>target\<close>; both tests are false;
  \<^item> \<open>Other n\<close>: a socket, fifo or device; both tests are false;
  \<^item> \<open>Unclassifiable n e\<close>: the type test raises \<open>e\<close>.
\<close>

datatype entry =
    File string "stat_result option"
  | Dir string "os_error option" "entry list"
  | Symlink string path
  | Other string
  | Unclassifiable string os_error

text \<open>What a path denotes when \<open>os.scandir\<close> is called on it.\<close>

datatype fsobj = Missing | NotDirectory | Directory "os_error option" "entry list"

fun scandir :: "fsobj \<Rightarrow> os_error + entry list" where
  "scandir Missing = Inl FileNotFoundError"
| "scandir NotDirectory = Inl NotADirectoryError"
| "scandir (Directory (Some e) es) = Inl e"
| "scandir (Directory None es) = Inr es"

text \<open>
  The environment of a scan: \<open>Path.resolve\<close>, what lies at a resolved path, and the
  rendering of a time stamp in the machine's time zone
  (\<open>time.strftime("%Y-%m-%d %H:%M:%S", time.localtime(t))\<close>).
\<close>

record filesystem =
  resolve :: "path \<Rightarrow> path"
  fs_at :: "path \<Rightarrow> fsobj"
  strftime_local :: "nat \<Rightarrow> string"

section \<open>Strings and paths\<close>

definition lower_char :: "char \<Rightarrow> char" where
  "lower_char c =
     (if CHR ''A'' \<le> c \<and> c \<le> CHR ''Z'' then char_of (of_char c + (32::nat)) else c)"

text \<open>\<open>str.lower\<close> on the ASCII letters; other bytes are kept.\<close>

definition lower :: "string \<Rightarrow> string" where
  "lower s = map lower_char s"

definition endswith :: "string \<Rightarrow> string \<Rightarrow> bool" where
  "endswith s suf =
     (length suf \<le> length s \<and> drop (length s - length suf) s = suf)"

definition is_pdf_name :: "string \<Rightarrow> bool" where
  "is_pdf_name n = endswith (lower n) ''.pdf''"

fun join_slash :: "string list \<Rightarrow> string" where
  "join_slash [] = []"
| "join_slash [a] = a"
| "join_slash (a # b # cs) = a @ ''/'' @ join_slash (b # cs)"

text \<open>\<open>str(path)\<close>: the empty relative path prints as a dot.\<close>

fun path_str :: "path \<Rightarrow> string" where
  "path_str [] = ''.''"
| "path_str (a # rest) = (if a = ''/'' then ''/'' @ join_slash rest else join_slash (a # rest))"

text \<open>\<open>Path.parent\<close> and \<open>Path.name\<close> of a path with at least one component below its anchor.\<close>

definition parent :: "path \<Rightarrow> path" where
  "parent p = butlast p"

definition name :: "path \<Rightarrow> string" where
  "name p = (if p = [] then [] else last p)"

text \<open>\<open>Path.relative_to\<close>: \<open>None\<close> stands for the \<open>ValueError\<close>.\<close>

definition relative_to :: "path \<Rightarrow> path \<Rightarrow> path option" where
  "relative_to child other =
     (if take (length other) child = other then Some (drop (length other) child) else None)"

definition safe_relpath :: "path \<Rightarrow> path \<Rightarrow> string" where
  "safe_relpath child root_path =
     (case relative_to child root_path of
        Some rel \<Rightarrow> path_str rel
      | None \<Rightarrow> path_str child)"

section \<open>The depth-bounded walk\<close>

text \<open>
  An element of the work stack: the folder, what \<open>os.scandir\<close> finds there, and its depth.
  The head of the list is the top of the stack (the end of the Python list).
\<close>

type_synonym frame = "path \<times> fsobj \<times> int"

text \<open>A yielded \<open>Path\<close>, with the outcome its \<open>stat()\<close> will have.\<close>

type_synonym found = "path \<times> stat_result option"

text \<open>
  What the generator has done when it stops: the paths yielded in order, the exception
  that left it (if any), and the folders handed to \<open>os.scandir\<close>.
\<close>

record walk_result =
  yielded :: "found list"
  raised :: "os_error option"
  visited :: "path list"

text \<open>
  The \<open>for entry in it\<close> loop over one listing: the paths it yields, the frames it appends
  to the stack (in append order), and the exception that leaves it.
\<close>

fun scan_entries ::
  "path \<Rightarrow> int \<Rightarrow> int \<Rightarrow> entry list \<Rightarrow> found list \<times> frame list \<times> os_error option" where
  "scan_entries folder d depth [] = ([], [], None)"
| "scan_entries folder d depth (File n st # es) =
     (let (ys, fs, r) = scan_entries folder d depth es
      in if is_pdf_name n then ((folder @ [n], st) # ys, fs, r) else (ys, fs, r))"
| "scan_entries folder d depth (Dir n err cs # es) =
     (let (ys, fs, r) = scan_entries folder d depth es
      in if d < depth then (ys, (folder @ [n], Directory err cs, d + 1) # fs, r)
         else (ys, fs, r))"
| "scan_entries folder d depth (Symlink n t # es) = scan_entries folder d depth es"
| "scan_entries folder d depth (Other n # es) = scan_entries folder d depth es"
| "scan_entries folder d depth (Unclassifiable n e # es) =
     (if e = PermissionError then scan_entries folder d depth es else ([], [], Some e))"

fun obj_size :: "fsobj \<Rightarrow> nat" where
  "obj_size (Directory err es) = Suc (size_list size es)"
| "obj_size _ = 1"

definition stack_size :: "frame list \<Rightarrow> nat" where
  "stack_size st = sum_list (map (\<lambda>(p, ob, d). obj_size ob) st)"

lemma scan_entries_size:
  "scan_entries folder d depth es = (ys, fs, r) \<Longrightarrow> stack_size fs \<le> size_list size es"
proof (induction es arbitrary: ys fs r)
  case Nil
  then show ?case by (simp add: stack_size_def)
next
  case (Cons e es)
  then show ?case
    by (cases e) (auto simp: stack_size_def split: prod.splits if_splits)
qed

text \<open>The \<open>while stack\<close> loop.\<close>

function walk :: "int \<Rightarrow> frame list \<Rightarrow> walk_result" where
  "walk depth [] = \<lparr>yielded = [], raised = None, visited = []\<rparr>"
| "walk depth ((folder, ob, d) # stack) =
     (case scandir ob of
        Inl e \<Rightarrow>
          if e = PermissionError
          then (let w = walk depth stack in w\<lparr>visited := folder # visited w\<rparr>)
          else \<lparr>yielded = [], raised = Some e, visited = [folder]\<rparr>
      | Inr es \<Rightarrow>
          (case scan_entries folder d depth es of
             (ys, fs, Some e) \<Rightarrow> \<lparr>yielded = ys, raised = Some e, visited = [folder]\<rparr>
           | (ys, fs, None) \<Rightarrow>
               (let w = walk depth (rev fs @ stack)
                in w\<lparr>yielded := ys @ yielded w, visited := folder # visited w\<rparr>)))"
  by pat_completeness auto
termination
proof (relation "measure (\<lambda>(depth, st). stack_size st)")
  show "wf (measure (\<lambda>(depth :: int, st). stack_size st))" by simp
next
  fix depth :: int and folder :: path and ob d and stack :: "frame list"
  show "((depth, stack), depth, (folder, ob, d) # stack)
          \<in> measure (\<lambda>(depth, st). stack_size st)"
    by (cases ob) (simp_all add: stack_size_def)
next
  fix depth :: int and folder :: path and ob d and stack :: "frame list" and es x y xa ya
  assume "scandir ob = Inr es" and "(x, y) = scan_entries folder d depth es"
    and "(xa, ya) = y"
  then have ob: "ob = Directory None es" and sc: "scan_entries folder d depth es = (x, xa, ya)"
    by (cases ob rule: scandir.cases; simp)+
  have "stack_size (rev xa @ stack) = stack_size xa + stack_size stack"
    by (simp add: stack_size_def rev_map [symmetric])
  with scan_entries_size [OF sc] ob
  show "((depth, rev xa @ stack), depth, (folder, ob, d) # stack)
          \<in> measure (\<lambda>(depth, st). stack_size st)"
    by (simp add: stack_size_def)
qed

definition iter_pdf_files :: "filesystem \<Rightarrow> path \<Rightarrow> int \<Rightarrow> walk_result" where
  "iter_pdf_files fs root_path depth =
     (let root' = resolve fs root_path;
          depth' = (if depth < 0 then 0 else depth)
      in walk depth' [(root', fs_at fs root', 0)])"

section \<open>Collecting and ranking the records\<close>

text \<open>
  Python floats are modelled by the rationals they stand for. \<open>round(x, ndigits)\<close> rounds
  the exact value of \<open>x\<close> to \<open>ndigits\<close> decimals, a tie going to the even neighbour.
\<close>

definition py_round :: "rat \<Rightarrow> nat \<Rightarrow> rat" where
  "py_round x ndigits =
     (let s = x * 10 ^ ndigits;
          f = \<lfloor>s\<rfloor>;
          r = s - of_int f;
          q = (if r < 1 / 2 then f else if 1 / 2 < r then f + 1
               else if even f then f else f + 1)
      in of_int q / 10 ^ ndigits)"

definition human_mb :: "int \<Rightarrow> rat" where
  "human_mb size_b = py_round (of_int size_b / (1024 * 1024)) 3"

record ScanResult =
  index :: nat
  rel_dir :: string
  filename :: string
  size_bytes :: int
  size_mb :: rat
  full_path :: string
  mtime :: string

text \<open>
  The first loop of \<open>scan_pdfs\<close>: one record per yielded path whose \<open>stat()\<close> succeeds,
  numbered in the order of arrival.
\<close>

fun collect :: "filesystem \<Rightarrow> path \<Rightarrow> nat \<Rightarrow> found list \<Rightarrow> ScanResult list" where
  "collect fs root_path idx [] = []"
| "collect fs root_path idx ((p, None) # ps) = collect fs root_path idx ps"
| "collect fs root_path idx ((p, Some st) # ps) =
     (let size_b = int (st_size st);
          idx' = idx + 1;
          rel = safe_relpath (parent p) root_path
      in \<lparr>index = idx',
          rel_dir = (if rel \<noteq> ''.'' then rel else []),
          filename = name p,
          size_bytes = size_b,
          size_mb = human_mb size_b,
          full_path = path_str p,
          mtime = strftime_local fs (st_mtime st)\<rparr>
         # collect fs root_path idx' ps)"

definition sort_results_key :: "ScanResult \<Rightarrow> int \<times> string" where
  "sort_results_key r = (- size_bytes r, lower (filename r))"

definition renumber :: "ScanResult list \<Rightarrow> ScanResult list" where
  "renumber results = map (\<lambda>(i, r). r\<lparr>index := i\<rparr>) (enumerate 1 results)"

text \<open>
  \<open>scan_pdfs\<close>: an exception leaving the generator leaves \<open>scan_pdfs\<close> too. The root
  handed to \<open>_safe_relpath\<close> is the argument as given: the generator resolves its own copy.
\<close>

definition scan_pdfs :: "filesystem \<Rightarrow> path \<Rightarrow> int \<Rightarrow> os_error + ScanResult list" where
  "scan_pdfs fs root_path depth =
     (let w = iter_pdf_files fs root_path depth
      in case raised w of
           Some e \<Rightarrow> Inl e
         | None \<Rightarrow>
             Inr (renumber (sort_key sort_results_key
                    (collect fs root_path 0 (yielded w)))))"

section \<open>The report\<close>

text \<open>The fixed texts of the report: sheet titles, column headers and summary labels.\<close>

datatype label =
    TitleDetails | TitleSummary
  | HdrIndex | HdrRelDir | HdrFilename | HdrSizeBytes | HdrSizeMb | HdrMtime | HdrFullPath
  | LblRoot | LblDepth | LblCount | LblTotalBytes | LblTotalMb | LblTop20

datatype cell = CLabel label | CStr string | CInt int | CNum rat

text \<open>
  A worksheet: its title, its rows in order, the frozen pane, the range of the filter and
  the column widths that were set. Fonts and alignments of cells are left out.
\<close>

record worksheet =
  title :: label
  rows :: "cell list list"
  freeze_panes :: "string option"
  auto_filter_ref :: "string option"
  col_widths :: "(nat \<times> nat) list"

definition detail_row :: "ScanResult \<Rightarrow> cell list" where
  "detail_row r =
     [CInt (int (index r)), CStr (rel_dir r), CStr (filename r), CInt (size_bytes r),
      CNum (size_mb r), CStr (mtime r), CStr (full_path r)]"

definition details_sheet :: "ScanResult list \<Rightarrow> worksheet" where
  "details_sheet results =
     \<lparr>title = TitleDetails,
      rows = map CLabel [HdrIndex, HdrRelDir, HdrFilename, HdrSizeBytes, HdrSizeMb,
                          HdrMtime, HdrFullPath]
             # map detail_row results,
      freeze_panes = Some ''A2'',
      auto_filter_ref = Some ''A1:G1'',
      col_widths = [(1, 7), (2, 26), (3, 42), (4, 14), (5, 12), (6, 20), (7, 70)]\<rparr>"

definition topn_rows :: "ScanResult list \<Rightarrow> cell list list" where
  "topn_rows results =
     map (\<lambda>(i, r). [CInt (int i), CStr (filename r), CNum (size_mb r), CStr (rel_dir r)])
       (enumerate 1 (take 20 results))"

definition summary_sheet :: "path \<Rightarrow> int \<Rightarrow> ScanResult list \<Rightarrow> worksheet" where
  "summary_sheet root_path depth results =
     (let total_bytes = sum_list (map size_bytes results)
      in \<lparr>title = TitleSummary,
          rows = [[CLabel LblRoot, CStr (path_str root_path)],
                  [CLabel LblDepth, CInt depth],
                  [CLabel LblCount, CInt (int (length results))],
                  [CLabel LblTotalBytes, CInt total_bytes],
                  [CLabel LblTotalMb, CNum (py_round (of_int total_bytes / (1024 * 1024)) 3)],
                  [],
                  [CLabel LblTop20],
                  [CLabel HdrIndex, CLabel HdrFilename, CLabel HdrSizeMb, CLabel HdrRelDir]]
                 @ topn_rows results,
          freeze_panes = None,
          auto_filter_ref = None,
          col_widths = [(1, 18), (2, 50), (3, 14), (4, 30)]\<rparr>)"


section \<open>Trees, levels and sample inputs\<close>

text \<open>
  The matching files that lie \<open>k\<close> directory levels below \<open>folder\<close>, whose listing is the
  given one: level 0 holds the files of the listing itself.
\<close>

fun files_at :: "path \<Rightarrow> nat \<Rightarrow> entry list \<Rightarrow> found list" where
  "files_at folder k [] = []"
| "files_at folder k (File n st # es) =
     (if k = 0 \<and> is_pdf_name n then [(folder @ [n], st)] else []) @ files_at folder k es"
| "files_at folder k (Dir n err cs # es) =
     (case k of 0 \<Rightarrow> [] | Suc j \<Rightarrow> files_at (folder @ [n]) j cs) @ files_at folder k es"
| "files_at folder k (Symlink n t # es) = files_at folder k es"
| "files_at folder k (Other n # es) = files_at folder k es"
| "files_at folder k (Unclassifiable n e # es) = files_at folder k es"

text \<open>
  A tree without failures: every directory in it can be listed, and an entry whose type
  cannot be read fails with a permission error.
\<close>

fun no_failures :: "entry list \<Rightarrow> bool" where
  "no_failures [] = True"
| "no_failures (Dir n err cs # es) = (err = None \<and> no_failures cs \<and> no_failures es)"
| "no_failures (Unclassifiable n e # es) = (e = PermissionError \<and> no_failures es)"
| "no_failures (File n st # es) = no_failures es"
| "no_failures (Symlink n t # es) = no_failures es"
| "no_failures (Other n # es) = no_failures es"

text \<open>
  The tree in which every directory whose listing is denied is replaced by an empty,
  listable directory of the same name.
\<close>

fun forget_denied :: "entry list \<Rightarrow> entry list" where
  "forget_denied [] = []"
| "forget_denied (Dir n err cs # es) =
     (if err = Some PermissionError then Dir n None [] else Dir n err (forget_denied cs))
     # forget_denied es"
| "forget_denied (File n st # es) = File n st # forget_denied es"
| "forget_denied (Symlink n t # es) = Symlink n t # forget_denied es"
| "forget_denied (Other n # es) = Other n # forget_denied es"
| "forget_denied (Unclassifiable n e # es) = Unclassifiable n e # forget_denied es"

fun forget_denied_obj :: "fsobj \<Rightarrow> fsobj" where
  "forget_denied_obj (Directory err es) =
     (if err = Some PermissionError then Directory None [] else Directory err (forget_denied es))"
| "forget_denied_obj Missing = Missing"
| "forget_denied_obj NotDirectory = NotDirectory"

definition forget_denied_frame :: "frame \<Rightarrow> frame" where
  "forget_denied_frame fr = (case fr of (p, ob, d) \<Rightarrow> (p, forget_denied_obj ob, d))"

text \<open>The tree with every symbolic link removed, at all levels.\<close>

fun without_symlinks :: "entry list \<Rightarrow> entry list" where
  "without_symlinks [] = []"
| "without_symlinks (Symlink n t # es) = without_symlinks es"
| "without_symlinks (Dir n err cs # es) = Dir n err (without_symlinks cs) # without_symlinks es"
| "without_symlinks (File n st # es) = File n st # without_symlinks es"
| "without_symlinks (Other n # es) = Other n # without_symlinks es"
| "without_symlinks (Unclassifiable n e # es) = Unclassifiable n e # without_symlinks es"

fun without_symlinks_obj :: "fsobj \<Rightarrow> fsobj" where
  "without_symlinks_obj (Directory err es) = Directory err (without_symlinks es)"
| "without_symlinks_obj Missing = Missing"
| "without_symlinks_obj NotDirectory = NotDirectory"

definition without_symlinks_frame :: "frame \<Rightarrow> frame" where
  "without_symlinks_frame fr = (case fr of (p, ob, d) \<Rightarrow> (p, without_symlinks_obj ob, d))"

text \<open>The number of real directories in a tree, at all levels.\<close>

fun dir_count :: "entry list \<Rightarrow> nat" where
  "dir_count [] = 0"
| "dir_count (Dir n err cs # es) = Suc (dir_count cs + dir_count es)"
| "dir_count (File n st # es) = dir_count es"
| "dir_count (Symlink n t # es) = dir_count es"
| "dir_count (Other n # es) = dir_count es"
| "dir_count (Unclassifiable n e # es) = dir_count es"

fun dir_count_obj :: "fsobj \<Rightarrow> nat" where
  "dir_count_obj (Directory err es) = Suc (dir_count es)"
| "dir_count_obj Missing = 1"
| "dir_count_obj NotDirectory = 1"

definition stack_dirs :: "frame list \<Rightarrow> nat" where
  "stack_dirs st = sum_list (map (\<lambda>(p, ob, d). dir_count_obj ob) st)"

text \<open>
  The frames that listing \<open>es\<close> of \<open>folder\<close> at depth \<open>d\<close> contributes when descent is
  allowed: one per real directory, in listing order.
\<close>

fun subframes :: "path \<Rightarrow> int \<Rightarrow> entry list \<Rightarrow> frame list" where
  "subframes folder d [] = []"
| "subframes folder d (Dir n err cs # es) =
     (folder @ [n], Directory err cs, d + 1) # subframes folder d es"
| "subframes folder d (File n st # es) = subframes folder d es"
| "subframes folder d (Symlink n t # es) = subframes folder d es"
| "subframes folder d (Other n # es) = subframes folder d es"
| "subframes folder d (Unclassifiable n e # es) = subframes folder d es"

text \<open>The matching files \<open>k\<close> levels below a path, given what lies at the path.\<close>

fun obj_files :: "path \<Rightarrow> nat \<Rightarrow> fsobj \<Rightarrow> found set" where
  "obj_files p k (Directory err es) = set (files_at p k es)"
| "obj_files p k Missing = {}"
| "obj_files p k NotDirectory = {}"

text \<open>The matching files below a frame that lie within the depth bound.\<close>

definition in_bound :: "int \<Rightarrow> frame \<Rightarrow> found set" where
  "in_bound depth fr =
     (case fr of (p, ob, d) \<Rightarrow> (\<Union>k \<in> {k. d + int k \<le> depth}. obj_files p k ob))"

text \<open>A frame of a tree without failures, pushed within the depth bound.\<close>

fun sound_frame :: "int \<Rightarrow> frame \<Rightarrow> bool" where
  "sound_frame depth (p, Directory err es, d) = (err = None \<and> no_failures es \<and> d \<le> depth)"
| "sound_frame depth (p, Missing, d) = False"
| "sound_frame depth (p, NotDirectory, d) = False"

text \<open>The names of the real directories of a listing, in listing order.\<close>

fun dir_names :: "entry list \<Rightarrow> string list" where
  "dir_names [] = []"
| "dir_names (Dir n err cs # es) = n # dir_names es"
| "dir_names (File n st # es) = dir_names es"
| "dir_names (Symlink n t # es) = dir_names es"
| "dir_names (Other n # es) = dir_names es"
| "dir_names (Unclassifiable n e # es) = dir_names es"

text \<open>A tree in which no directory holds two subdirectories of the same name.\<close>

fun distinct_dirs :: "entry list \<Rightarrow> bool" where
  "distinct_dirs [] = True"
| "distinct_dirs (Dir n err cs # es) =
     (n \<notin> set (dir_names es) \<and> distinct_dirs cs \<and> distinct_dirs es)"
| "distinct_dirs (File n st # es) = distinct_dirs es"
| "distinct_dirs (Symlink n t # es) = distinct_dirs es"
| "distinct_dirs (Other n # es) = distinct_dirs es"
| "distinct_dirs (Unclassifiable n e # es) = distinct_dirs es"

fun distinct_dirs_obj :: "fsobj \<Rightarrow> bool" where
  "distinct_dirs_obj (Directory err es) = distinct_dirs es"
| "distinct_dirs_obj Missing = True"
| "distinct_dirs_obj NotDirectory = True"

text \<open>
  A stack whose folders are pairwise different and none below another, each with a tree of
  distinct directory names.
\<close>

definition separate_stack :: "frame list \<Rightarrow> bool" where
  "separate_stack st \<longleftrightarrow>
     distinct (map fst st)
     \<and> pairwise (\<lambda>p q. \<not> prefix p q) (fst ` set st)
     \<and> list_all (\<lambda>fr. distinct_dirs_obj (fst (snd fr))) st"

text \<open>
  A sample tree: a 10 MiB file in the root, a 5 MiB file one level down, a smaller one two
  levels down, a text file, and a symbolic link back to the root.
\<close>

definition sample_root :: path where
  "sample_root = [''/'', ''home'', ''docs'']"

definition sample_tree :: "entry list" where
  "sample_tree =
     [File ''a.pdf'' (Some \<lparr>st_size = 10485760, st_mtime = 100\<rparr>),
      File ''notes.txt'' (Some \<lparr>st_size = 12, st_mtime = 101\<rparr>),
      Dir ''sub'' None
        [File ''b.PDF'' (Some \<lparr>st_size = 5242880, st_mtime = 102\<rparr>),
         Dir ''deep'' None [File ''c.pdf'' (Some \<lparr>st_size = 65536, st_mtime = 103\<rparr>)]],
      Symlink ''loop'' [''/'', ''home'', ''docs'']]"

definition sample_fs :: filesystem where
  "sample_fs =
     \<lparr>resolve = (\<lambda>p. p),
      fs_at = (\<lambda>p. if p = sample_root then Directory None sample_tree else Missing),
      strftime_local = (\<lambda>t. ''2024-01-01 00:00:00'')\<rparr>"

text \<open>
  A tree in which one directory was removed between the listing of its parent and its own
  listing, next to a sibling directory that holds a matching file.
\<close>

definition vanished_fs :: filesystem where
  "vanished_fs =
     \<lparr>resolve = (\<lambda>p. p),
      fs_at = (\<lambda>p. if p = sample_root
                    then Directory None
                           [File ''a.pdf'' (Some \<lparr>st_size = 10, st_mtime = 100\<rparr>),
                            Dir ''gone'' (Some FileNotFoundError) [],
                            Dir ''sub'' None
                              [File ''b.pdf'' (Some \<lparr>st_size = 20, st_mtime = 101\<rparr>)]]
                    else Missing),
      strftime_local = (\<lambda>t. ''2024-01-01 00:00:00'')\<rparr>"

text \<open>The same tree with a directory that denies its listing instead.\<close>

definition denied_fs :: filesystem where
  "denied_fs =
     \<lparr>resolve = (\<lambda>p. p),
      fs_at = (\<lambda>p. if p = sample_root
                    then Directory None
                           [File ''a.pdf'' (Some \<lparr>st_size = 10, st_mtime = 100\<rparr>),
                            Dir ''secret'' (Some PermissionError)
                              [File ''s.pdf'' (Some \<lparr>st_size = 30, st_mtime = 102\<rparr>)],
                            Dir ''sub'' None
                              [File ''b.pdf'' (Some \<lparr>st_size = 20, st_mtime = 101\<rparr>)]]
                    else Missing),
      strftime_local = (\<lambda>t. ''2024-01-01 00:00:00'')\<rparr>"

text \<open>
  A root given through a symbolic link: \<open>/tmp/docs\<close> resolves to \<open>/private/tmp/docs\<close>, which
  holds one matching file.
\<close>

definition symlinked_fs :: filesystem where
  "symlinked_fs =
     \<lparr>resolve = (\<lambda>p. if p = [''/'', ''tmp'', ''docs'']
                      then [''/'', ''private'', ''tmp'', ''docs''] else p),
      fs_at = (\<lambda>p. if p = [''/'', ''private'', ''tmp'', ''docs'']
                    then Directory None
                           [File ''a.pdf'' (Some \<lparr>st_size = 10, st_mtime = 100\<rparr>)]
                    else Missing),
      strftime_local = (\<lambda>t. ''2024-01-01 00:00:00'')\<rparr>"

definition sample_record :: ScanResult where
  "sample_record =
     \<lparr>index = 1, rel_dir = ''sub'', filename = ''b.PDF'', size_bytes = 5242880, size_mb = 5,
      full_path = ''/home/docs/sub/b.PDF'', mtime = ''2024-01-01 00:00:00''\<rparr>"

section \<open>Evaluating the sample tree\<close>

lemma sample_names:
  "is_pdf_name ''a.pdf''" "\<not> is_pdf_name ''notes.txt''" "is_pdf_name ''b.PDF''" "is_pdf_name ''c.pdf''"
  by code_simp+

lemma sample_walk_0:
  "iter_pdf_files sample_fs sample_root 0 =
     \<lparr>yielded = [(sample_root @ [''a.pdf''], Some \<lparr>st_size = 10485760, st_mtime = 100\<rparr>)],
      raised = None, visited = [sample_root]\<rparr>"
  by (simp add: iter_pdf_files_def sample_fs_def sample_tree_def sample_names)

lemma sample_walk_1:
  "iter_pdf_files sample_fs sample_root 1 =
     \<lparr>yielded = [(sample_root @ [''a.pdf''], Some \<lparr>st_size = 10485760, st_mtime = 100\<rparr>),
                 (sample_root @ [''sub'', ''b.PDF''], Some \<lparr>st_size = 5242880, st_mtime = 102\<rparr>)],
      raised = None, visited = [sample_root, sample_root @ [''sub'']]\<rparr>"
  by (simp add: iter_pdf_files_def sample_fs_def sample_tree_def sample_names)

lemma sample_scan_0:
  "map filename (projr (scan_pdfs sample_fs sample_root 0)) = [''a.pdf'']"
  by (simp add: scan_pdfs_def sample_walk_0 renumber_def name_def Let_def)

lemma sample_scan_1:
  "map filename (projr (scan_pdfs sample_fs sample_root 1)) = [''a.pdf'', ''b.PDF'']"
  by (simp add: scan_pdfs_def sample_walk_1 renumber_def name_def Let_def
      sort_results_key_def less_eq_prod_def)

section \<open>Negative depths and invalid roots\<close>

text \<open>
  C8. A negative depth is clamped to 0: the walk and the scan with a depth below zero
  return exactly what they return with depth 0 on the same file system.
\<close>

theorem negative_depth_is_zero:
  assumes "d < 0"
  shows "iter_pdf_files fs root_path d = iter_pdf_files fs root_path 0
       \<and> scan_pdfs fs root_path d = scan_pdfs fs root_path 0"
  using assms by (simp add: scan_pdfs_def iter_pdf_files_def)

theorem negative_depth_is_zero_witness:
  "(- 3 :: int) < 0
   \<and> iter_pdf_files sample_fs sample_root (- 3) = iter_pdf_files sample_fs sample_root 0
   \<and> scan_pdfs sample_fs sample_root (- 3) = scan_pdfs sample_fs sample_root 0
   \<and> map filename (projr (scan_pdfs sample_fs sample_root (- 3))) = [''a.pdf'']"
proof -
  have h: "(- 3 :: int) < 0" by simp
  note t = negative_depth_is_zero [OF h, of sample_fs sample_root]
  from t have "map filename (projr (scan_pdfs sample_fs sample_root (- 3))) = [''a.pdf'']"
    by (simp only: sample_scan_0)
  with t h show ?thesis by blast
qed



section \<open>The report: totals and the excerpt of the largest files\<close>

lemma rows_details_sheet:
  "rows (details_sheet results) =
     map CLabel [HdrIndex, HdrRelDir, HdrFilename, HdrSizeBytes, HdrSizeMb, HdrMtime, HdrFullPath]
     # map detail_row results"
  by (simp add: details_sheet_def)

lemma drop_rows_summary_sheet:
  "drop 8 (rows (summary_sheet root_path depth results)) = topn_rows results"
  by (simp add: summary_sheet_def Let_def)

lemma length_topn_rows: "length (topn_rows results) = min 20 (length results)"
  by (simp add: topn_rows_def min.commute)

lemma nth_topn_rows:
  assumes "i < min 20 (length results)"
  shows "topn_rows results ! i =
           [CInt (int i + 1), CStr (filename (results ! i)), CNum (size_mb (results ! i)),
            CStr (rel_dir (results ! i))]"
proof -
  from assms have "i < length (take 20 results)" by simp
  then have "enumerate 1 (take 20 results) ! i = (1 + i, take 20 results ! i)"
    by (rule nth_enumerate_eq)
  moreover from assms have "take 20 results ! i = results ! i" by simp
  ultimately show ?thesis using assms by (simp add: topn_rows_def)
qed

lemma collect_size_mb:
  "r \<in> set (collect fs root_path idx ps) \<Longrightarrow> size_mb r = human_mb (size_bytes r)"
  by (induction fs root_path idx ps rule: collect.induct) (auto simp: Let_def)


text \<open>
  C7. The rows of the summary sheet after its eight fixed rows are the excerpt: there are
  \<open>min 20 N\<close> of them, the \<open>i\<close>-th (counted from 0) is numbered \<open>i + 1\<close> and shows the
  \<open>i\<close>-th record of the list, which is also the record of the \<open>i\<close>-th data row of the
  detail sheet.
\<close>

theorem top_excerpt:
  "length (drop 8 (rows (summary_sheet root_path depth results))) = min 20 (length results)
   \<and> (\<forall>i < min 20 (length results).
         drop 8 (rows (summary_sheet root_path depth results)) ! i =
           [CInt (int i + 1), CStr (filename (results ! i)), CNum (size_mb (results ! i)),
            CStr (rel_dir (results ! i))]
         \<and> rows (details_sheet results) ! Suc i = detail_row (results ! i))"
  by (simp add: drop_rows_summary_sheet length_topn_rows nth_topn_rows rows_details_sheet)

theorem top_excerpt_witness:
  "(19::nat) < min 20 (length (replicate 25 sample_record))
   \<and> length (drop 8 (rows (summary_sheet sample_root 2 (replicate 25 sample_record)))) = 20
   \<and> drop 8 (rows (summary_sheet sample_root 2 (replicate 25 sample_record))) ! 19 =
        [CInt 20, CStr (filename sample_record), CNum (size_mb sample_record), CStr (rel_dir sample_record)]
   \<and> rows (details_sheet (replicate 25 sample_record)) ! 20 = detail_row sample_record"
proof -
  have h: "(19::nat) < min 20 (length (replicate 25 sample_record))" by simp
  from top_excerpt [of sample_root 2 "replicate 25 sample_record"]
  have n: "length (drop 8 (rows (summary_sheet sample_root 2 (replicate 25 sample_record)))) = 20"
    and a: "\<forall>i < min 20 (length (replicate 25 sample_record)).
         drop 8 (rows (summary_sheet sample_root 2 (replicate 25 sample_record))) ! i =
           [CInt (int i + 1), CStr (filename (replicate 25 sample_record ! i)),
            CNum (size_mb (replicate 25 sample_record ! i)), CStr (rel_dir (replicate 25 sample_record ! i))]
         \<and> rows (details_sheet (replicate 25 sample_record)) ! Suc i = detail_row (replicate 25 sample_record ! i)"
    by simp_all
  from a h have "drop 8 (rows (summary_sheet sample_root 2 (replicate 25 sample_record))) ! 19 =
           [CInt (int 19 + 1), CStr (filename (replicate 25 sample_record ! 19)),
            CNum (size_mb (replicate 25 sample_record ! 19)), CStr (rel_dir (replicate 25 sample_record ! 19))]
         \<and> rows (details_sheet (replicate 25 sample_record)) ! Suc 19 = detail_row (replicate 25 sample_record ! 19)"
    by blast
  with n h show ?thesis by simp
qed

section \<open>Order and ranks of the scan results\<close>

lemma sort_results_key_index [simp]:
  "sort_results_key (r\<lparr>index := i\<rparr>) = sort_results_key r"
  by (simp add: sort_results_key_def)

lemma length_renumber [simp]: "length (renumber results) = length results"
  by (simp add: renumber_def)







lemma sample_walk_2:
  "iter_pdf_files sample_fs sample_root 2 =
     \<lparr>yielded = [(sample_root @ [''a.pdf''], Some \<lparr>st_size = 10485760, st_mtime = 100\<rparr>),
                 (sample_root @ [''sub'', ''b.PDF''], Some \<lparr>st_size = 5242880, st_mtime = 102\<rparr>),
                 (sample_root @ [''sub'', ''deep'', ''c.pdf''],
                  Some \<lparr>st_size = 65536, st_mtime = 103\<rparr>)],
      raised = None,
      visited = [sample_root, sample_root @ [''sub''], sample_root @ [''sub'', ''deep'']]\<rparr>"
  by (simp add: iter_pdf_files_def sample_fs_def sample_tree_def sample_names)



section \<open>The depth bound of the walk\<close>

lemma scan_entries_no_failures:
  "no_failures es \<Longrightarrow>
     scan_entries folder d depth es =
       (files_at folder 0 es, (if d < depth then subframes folder d es else []), None)"
  by (induction es rule: no_failures.induct) auto

lemma files_at_Suc:
  "set (files_at folder (Suc j) es) = (\<Union>(p, ob, d') \<in> set (subframes folder d es). obj_files p j ob)"
  by (induction es rule: no_failures.induct) auto

lemma sound_subframes:
  "no_failures es \<Longrightarrow> d < depth \<Longrightarrow> fr \<in> set (subframes folder d es) \<Longrightarrow> sound_frame depth fr"
  by (induction es rule: no_failures.induct) auto

lemma subframes_depth:
  "(p, ob, d') \<in> set (subframes folder d es) \<Longrightarrow> d' = d + 1"
  by (induction es rule: no_failures.induct) auto

lemma in_bound_unfold:
  assumes "d \<le> depth"
  shows "in_bound depth (folder, Directory err es, d) =
           set (files_at folder 0 es)
           \<union> (\<Union>fr \<in> set (if d < depth then subframes folder d es else []). in_bound depth fr)"
proof -
  have split: "{k. d + int k \<le> depth} = insert 0 (Suc ` {j. d + 1 + int j \<le> depth})"
  proof (rule set_eqI)
    fix k show "k \<in> {k. d + int k \<le> depth} \<longleftrightarrow> k \<in> insert 0 (Suc ` {j. d + 1 + int j \<le> depth})"
      using assms by (cases k) auto
  qed
  have sub: "(\<Union>j \<in> {j. d + 1 + int j \<le> depth}. set (files_at folder (Suc j) es)) =
             (\<Union>fr \<in> set (if d < depth then subframes folder d es else []). in_bound depth fr)"
  proof (cases "d < depth")
    case True
    have "in_bound depth fr = (\<Union>j \<in> {j. d + 1 + int j \<le> depth}. obj_files (fst fr) j (fst (snd fr)))"
      if "fr \<in> set (subframes folder d es)" for fr
    proof -
      obtain p ob d' where fr: "fr = (p, ob, d')" by (cases fr)
      with that have "d' = d + 1" by (auto dest: subframes_depth)
      with fr show ?thesis by (simp add: in_bound_def)
    qed
    then have "(\<Union>fr \<in> set (subframes folder d es). in_bound depth fr) =
          (\<Union>fr \<in> set (subframes folder d es).
             \<Union>j \<in> {j. d + 1 + int j \<le> depth}. obj_files (fst fr) j (fst (snd fr)))"
      by simp
    also have "\<dots> = (\<Union>j \<in> {j. d + 1 + int j \<le> depth}.
             \<Union>fr \<in> set (subframes folder d es). obj_files (fst fr) j (fst (snd fr)))"
      by blast
    also have "\<dots> = (\<Union>j \<in> {j. d + 1 + int j \<le> depth}. set (files_at folder (Suc j) es))"
      by (simp add: files_at_Suc [of folder _ es d] case_prod_unfold)
    finally show ?thesis using True by simp
  next
    case False
    with assms have "{j. d + 1 + int j \<le> depth} = {}" by auto
    with False show ?thesis by simp
  qed
  have "in_bound depth (folder, Directory err es, d) =
          (\<Union>k \<in> insert 0 (Suc ` {j. d + 1 + int j \<le> depth}). set (files_at folder k es))"
    unfolding in_bound_def prod.case split by simp
  also have "\<dots> = set (files_at folder 0 es)
          \<union> (\<Union>j \<in> {j. d + 1 + int j \<le> depth}. set (files_at folder (Suc j) es))"
    by (simp only: UN_insert image_UN UN_simps image_image) 
  also have "\<dots> = set (files_at folder 0 es)
          \<union> (\<Union>fr \<in> set (if d < depth then subframes folder d es else []). in_bound depth fr)"
    by (simp only: sub)
  finally show ?thesis .
qed

lemma walk_no_failures:
  "(\<forall>fr \<in> set stack. sound_frame depth fr) \<Longrightarrow>
     raised (walk depth stack) = None
     \<and> set (yielded (walk depth stack)) = (\<Union>fr \<in> set stack. in_bound depth fr)"
proof (induction depth stack rule: walk.induct)
  case (1 depth)
  then show ?case by simp
next
  case (2 depth folder ob d stack)
  from "2.prems" obtain es where ob: "ob = Directory None es"
    and nf: "no_failures es" and d: "d \<le> depth"
    by (cases ob) auto
  let ?fs = "if d < depth then subframes folder d es else []"
  have sc: "scan_entries folder d depth es = (files_at folder 0 es, ?fs, None)"
    using nf by (rule scan_entries_no_failures)
  have sound: "\<forall>fr \<in> set (rev ?fs @ stack). sound_frame depth fr"
    using "2.prems" nf by (auto dest: sound_subframes)
  have ih: "raised (walk depth (rev ?fs @ stack)) = None
     \<and> set (yielded (walk depth (rev ?fs @ stack))) = (\<Union>fr \<in> set (rev ?fs @ stack). in_bound depth fr)"
    using "2.IH"(2) [of es "files_at folder 0 es" "(?fs, None)" ?fs None]
      sound ob sc by simp
  have w: "walk depth ((folder, ob, d) # stack) =
      (let w = walk depth (rev ?fs @ stack)
       in w\<lparr>yielded := files_at folder 0 es @ yielded w, visited := folder # visited w\<rparr>)"
    using ob sc by simp
  show ?case
    unfolding w Let_def
    using ih in_bound_unfold [OF d, of folder None es] ob
    by (simp add: Un_assoc)
qed

lemma files_at_length:
  "(p, st) \<in> set (files_at folder k es) \<Longrightarrow> length p = length folder + k + 1"
  by (induction folder k es rule: files_at.induct) (auto split: if_splits nat.splits)

lemma iter_pdf_files_no_failures:
  assumes "0 \<le> d" and "fs_at fs (resolve fs root_path) = Directory None es" and "no_failures es"
  shows "raised (iter_pdf_files fs root_path d) = None"
    and "set (yielded (iter_pdf_files fs root_path d)) =
           (\<Union>k \<in> {k. int k \<le> d}. set (files_at (resolve fs root_path) k es))"
proof -
  have eq: "iter_pdf_files fs root_path d = walk d [(resolve fs root_path, Directory None es, 0)]"
    using assms by (simp add: iter_pdf_files_def Let_def del: walk.simps)
  have "\<forall>fr \<in> set [(resolve fs root_path, Directory None es, 0)]. sound_frame d fr"
    using assms by simp
  from walk_no_failures [OF this]
  show "raised (iter_pdf_files fs root_path d) = None"
    and "set (yielded (iter_pdf_files fs root_path d)) =
           (\<Union>k \<in> {k. int k \<le> d}. set (files_at (resolve fs root_path) k es))"
    unfolding eq by (simp_all add: in_bound_def del: walk.simps)
qed

lemma map_full_path_collect:
  "map full_path (collect fs root_path idx ps) =
     map (path_str \<circ> fst) (filter (\<lambda>g. snd g \<noteq> None) ps)"
  by (induction fs root_path idx ps rule: collect.induct) (simp_all add: Let_def)

lemma full_path_collect:
  "full_path ` set (collect fs root_path idx ps) =
     (path_str \<circ> fst) ` {g \<in> set ps. snd g \<noteq> None}"
proof -
  have "set (map full_path (collect fs root_path idx ps)) =
        set (map (path_str \<circ> fst) (filter (\<lambda>g. snd g \<noteq> None) ps))"
    by (simp only: map_full_path_collect)
  then show ?thesis by simp
qed

lemma full_path_renumber: "full_path ` set (renumber results) = full_path ` set results"
proof -
  have "map full_path (map (\<lambda>(i, r). r\<lparr>index := i\<rparr>) zs) = map full_path (map snd zs)"
    for zs :: "(nat \<times> ScanResult) list"
    by (induction zs) auto
  then have "map full_path (renumber results) = map full_path (map snd (enumerate 1 results))"
    unfolding renumber_def .
  then have "map full_path (renumber results) = map full_path results" by simp
  then have "set (map full_path (renumber results)) = set (map full_path results)" by simp
  then show ?thesis by simp
qed

lemma scan_pdfs_full_paths:
  assumes "raised (iter_pdf_files fs root_path d) = None"
  shows "\<exists>rs. scan_pdfs fs root_path d = Inr rs
           \<and> full_path ` set rs =
               (path_str \<circ> fst) ` {g \<in> set (yielded (iter_pdf_files fs root_path d)). snd g \<noteq> None}"
  using assms by (simp add: scan_pdfs_def Let_def full_path_renumber full_path_collect)

text \<open>
  C1. On a tree without listing failures and with a depth \<open>d \<ge> 0\<close>, the walk ends without
  an exception, and a matching file that lies \<open>k\<close> directory levels below the root is
  yielded if and only if \<open>k \<le> d\<close>. The scan then returns records, and their full paths are
  exactly the yielded paths whose \<open>stat()\<close> succeeds.
\<close>

theorem depth_bounded_walk:
  assumes "0 \<le> d"
    and "fs_at fs (resolve fs root_path) = Directory None es"
    and "no_failures es"
    and "f \<in> set (files_at (resolve fs root_path) k es)"
  shows "raised (iter_pdf_files fs root_path d) = None
       \<and> (f \<in> set (yielded (iter_pdf_files fs root_path d)) \<longleftrightarrow> int k \<le> d)
       \<and> (\<exists>rs. scan_pdfs fs root_path d = Inr rs
             \<and> full_path ` set rs =
                 (path_str \<circ> fst) `
                   {g \<in> set (yielded (iter_pdf_files fs root_path d)). snd g \<noteq> None})"
proof -
  note w = iter_pdf_files_no_failures [OF assms(1-3)]
  have "f \<in> set (yielded (iter_pdf_files fs root_path d)) \<longleftrightarrow> int k \<le> d"
  proof
    assume "f \<in> set (yielded (iter_pdf_files fs root_path d))"
    with w(2) obtain j where j: "int j \<le> d" and fj: "f \<in> set (files_at (resolve fs root_path) j es)"
      by auto
    from fj assms(4) have "j = k"
      using files_at_length [of "fst f" "snd f" "resolve fs root_path" j es]
        files_at_length [of "fst f" "snd f" "resolve fs root_path" k es]
      by simp
    with j show "int k \<le> d" by simp
  next
    assume "int k \<le> d"
    with assms(4) w(2) show "f \<in> set (yielded (iter_pdf_files fs root_path d))" by auto
  qed
  with w(1) scan_pdfs_full_paths [OF w(1)] show ?thesis by simp
qed

theorem depth_bounded_walk_witness:
  "(0::int) \<le> 1
   \<and> fs_at sample_fs (resolve sample_fs sample_root) = Directory None sample_tree
   \<and> no_failures sample_tree
   \<and> (sample_root @ [''sub'', ''b.PDF''], Some \<lparr>st_size = 5242880, st_mtime = 102\<rparr>)
       \<in> set (files_at (resolve sample_fs sample_root) 1 sample_tree)
   \<and> (sample_root @ [''sub'', ''deep'', ''c.pdf''], Some \<lparr>st_size = 65536, st_mtime = 103\<rparr>)
       \<in> set (files_at (resolve sample_fs sample_root) 2 sample_tree)
   \<and> raised (iter_pdf_files sample_fs sample_root 1) = None
   \<and> (sample_root @ [''sub'', ''b.PDF''], Some \<lparr>st_size = 5242880, st_mtime = 102\<rparr>)
       \<in> set (yielded (iter_pdf_files sample_fs sample_root 1))
   \<and> (sample_root @ [''sub'', ''deep'', ''c.pdf''], Some \<lparr>st_size = 65536, st_mtime = 103\<rparr>)
       \<notin> set (yielded (iter_pdf_files sample_fs sample_root 1))"
proof -
  have h1: "(0::int) \<le> 1" by simp
  have h2: "fs_at sample_fs (resolve sample_fs sample_root) = Directory None sample_tree"
    by (simp add: sample_fs_def)
  have h3: "no_failures sample_tree" by (simp add: sample_tree_def)
  have r: "resolve sample_fs sample_root = sample_root" by (simp add: sample_fs_def)
  have h4: "(sample_root @ [''sub'', ''b.PDF''], Some \<lparr>st_size = 5242880, st_mtime = 102\<rparr>)
       \<in> set (files_at (resolve sample_fs sample_root) 1 sample_tree)"
    unfolding r by (simp add: sample_tree_def sample_names)
  have h5: "(sample_root @ [''sub'', ''deep'', ''c.pdf''], Some \<lparr>st_size = 65536, st_mtime = 103\<rparr>)
       \<in> set (files_at (resolve sample_fs sample_root) 2 sample_tree)"
    unfolding r by (simp add: sample_tree_def sample_names numeral_2_eq_2)
  from depth_bounded_walk [OF h1 h2 h3 h4] depth_bounded_walk [OF h1 h2 h3 h5] h1 h2 h3 h4 h5
  show ?thesis by simp
qed

section \<open>Listing failures\<close>

lemma forget_denied_frame_simp:
  "forget_denied_frame (p, ob, d) = (p, forget_denied_obj ob, d)"
  by (simp add: forget_denied_frame_def)

lemma scan_entries_forget_denied:
  "scan_entries folder d depth (forget_denied es) =
     (case scan_entries folder d depth es of
        (ys, fs, r) \<Rightarrow> (ys, map forget_denied_frame fs, r))"
  by (induction es rule: forget_denied.induct)
    (auto simp: forget_denied_frame_simp split: prod.splits)

lemma walk_forget_denied:
  "walk depth (map forget_denied_frame stack) = walk depth stack"
proof (induction depth stack rule: walk.induct)
  case (1 depth)
  then show ?case by simp
next
  case (2 depth folder ob d stack)
  show ?case
  proof (cases "scandir ob")
    case (Inl e)
    show ?thesis
    proof (cases "e = PermissionError")
      case True
      with Inl obtain es where ob: "ob = Directory (Some PermissionError) es"
        by (cases ob rule: scandir.cases) auto
      from "2.IH"(1) [OF Inl True] ob show ?thesis
        by (simp add: forget_denied_frame_simp)
    next
      case False
      with Inl have "scandir (forget_denied_obj ob) = Inl e"
        by (cases ob rule: scandir.cases) auto
      with Inl False show ?thesis
        by (simp add: forget_denied_frame_simp)
    qed
  next
    case (Inr es)
    then have ob: "ob = Directory None es"
      by (cases ob rule: scandir.cases) auto
    obtain ys fs r where sc: "scan_entries folder d depth es = (ys, fs, r)"
      by (cases "scan_entries folder d depth es") auto
    have sc': "scan_entries folder d depth (forget_denied es) = (ys, map forget_denied_frame fs, r)"
      by (simp add: scan_entries_forget_denied sc)
    show ?thesis
    proof (cases r)
      case None
      from "2.IH"(2) [OF Inr sc [symmetric] refl None]
      have "walk depth (map forget_denied_frame (rev fs @ stack)) = walk depth (rev fs @ stack)" .
      with ob sc sc' None show ?thesis
        by (simp add: forget_denied_frame_simp rev_map)
    next
      case (Some e)
      with ob sc sc' show ?thesis
        by (simp add: forget_denied_frame_simp)
    qed
  qed
qed

lemma collect_fs_at:
  "collect (fs\<lparr>fs_at := g\<rparr>) root_path idx ps = collect fs root_path idx ps"
  by (induction fs root_path idx ps rule: collect.induct) (simp_all add: Let_def)

lemma iter_pdf_files_forget_denied:
  "iter_pdf_files (fs\<lparr>fs_at := forget_denied_obj \<circ> fs_at fs\<rparr>) root_path d =
   iter_pdf_files fs root_path d"
proof -
  have "walk depth [(p, forget_denied_obj ob, 0)] = walk depth [(p, ob, 0)]" for depth p ob
    using walk_forget_denied [of depth "[(p, ob, 0)]"]
    by (simp add: forget_denied_frame_simp del: walk.simps)
  then show ?thesis
    by (simp add: iter_pdf_files_def Let_def del: walk.simps)
qed

lemma iter_pdf_files_clamp:
  "iter_pdf_files fs root_path d = iter_pdf_files fs root_path (max d 0)"
  by (simp add: iter_pdf_files_def max_def)

text \<open>
  C4, as stated, fails for a vanished directory: \<open>os.scandir\<close> then raises
  \<open>FileNotFoundError\<close>, which \<open>except PermissionError\<close> does not catch, and the exception
  leaves the generator and \<open>scan_pdfs\<close>, although a sibling directory holds a matching file.
\<close>

theorem vanished_listing_aborts:
  "raised (iter_pdf_files vanished_fs sample_root 1) = Some FileNotFoundError
   \<and> scan_pdfs vanished_fs sample_root 1 = Inl FileNotFoundError"
proof -
  have b: "is_pdf_name ''b.pdf''" by code_simp
  have "raised (iter_pdf_files vanished_fs sample_root 1) = Some FileNotFoundError"
    by (simp add: iter_pdf_files_def vanished_fs_def sample_names b)
  then show ?thesis by (simp add: scan_pdfs_def)
qed

text \<open>
  C4, amended. A directory whose listing is denied (\<open>PermissionError\<close>), at any level, is
  treated exactly as an empty directory: the walk and the scan return what they return on
  the tree in which every such directory is empty and listable, so only that subtree is
  missing and the siblings are walked. When permission denials are the only failures in
  the tree, no exception leaves the walk and the scan returns its records.
\<close>

theorem denied_listing_skipped:
  "iter_pdf_files (fs\<lparr>fs_at := forget_denied_obj \<circ> fs_at fs\<rparr>) root_path d =
     iter_pdf_files fs root_path d
   \<and> scan_pdfs (fs\<lparr>fs_at := forget_denied_obj \<circ> fs_at fs\<rparr>) root_path d =
       scan_pdfs fs root_path d
   \<and> (forget_denied_obj (fs_at fs (resolve fs root_path)) = Directory None es \<and> no_failures es
        \<longrightarrow> raised (iter_pdf_files fs root_path d) = None
            \<and> (\<exists>rs. scan_pdfs fs root_path d = Inr rs))"
proof -
  let ?fs = "fs\<lparr>fs_at := forget_denied_obj \<circ> fs_at fs\<rparr>"
  have w: "iter_pdf_files ?fs root_path d = iter_pdf_files fs root_path d"
    by (rule iter_pdf_files_forget_denied)
  have s: "scan_pdfs ?fs root_path d = scan_pdfs fs root_path d"
    by (simp only: scan_pdfs_def w collect_fs_at)
  have "raised (iter_pdf_files fs root_path d) = None \<and> (\<exists>rs. scan_pdfs fs root_path d = Inr rs)"
    if ob: "forget_denied_obj (fs_at fs (resolve fs root_path)) = Directory None es"
      and nf: "no_failures es"
  proof -
    have "fs_at ?fs (resolve ?fs root_path) = Directory None es"
      using ob by simp
    from iter_pdf_files_no_failures(1) [OF _ this nf, of "max d 0"]
    have "raised (iter_pdf_files ?fs root_path (max d 0)) = None" by simp
    then have "raised (iter_pdf_files ?fs root_path d) = None"
      using iter_pdf_files_clamp [of ?fs root_path d] by simp
    then have r: "raised (iter_pdf_files fs root_path d) = None"
      unfolding w .
    from scan_pdfs_full_paths [OF r] r show ?thesis by blast
  qed
  with w s show ?thesis by blast
qed

theorem denied_listing_skipped_witness:
  "forget_denied_obj (fs_at denied_fs (resolve denied_fs sample_root)) =
     Directory None
       [File ''a.pdf'' (Some \<lparr>st_size = 10, st_mtime = 100\<rparr>),
        Dir ''secret'' None [],
        Dir ''sub'' None [File ''b.pdf'' (Some \<lparr>st_size = 20, st_mtime = 101\<rparr>)]]
   \<and> no_failures
       [File ''a.pdf'' (Some \<lparr>st_size = 10, st_mtime = 100\<rparr>),
        Dir ''secret'' None [],
        Dir ''sub'' None [File ''b.pdf'' (Some \<lparr>st_size = 20, st_mtime = 101\<rparr>)]]
   \<and> raised (iter_pdf_files denied_fs sample_root 1) = None
   \<and> (\<exists>rs. scan_pdfs denied_fs sample_root 1 = Inr rs)
   \<and> map fst (yielded (iter_pdf_files denied_fs sample_root 1)) =
       [sample_root @ [''a.pdf''], sample_root @ [''sub'', ''b.pdf'']]
   \<and> visited (iter_pdf_files denied_fs sample_root 1) =
       [sample_root, sample_root @ [''sub''], sample_root @ [''secret'']]"
proof -
  let ?es = "[File ''a.pdf'' (Some \<lparr>st_size = 10, st_mtime = 100\<rparr>),
        Dir ''secret'' None [],
        Dir ''sub'' None [File ''b.pdf'' (Some \<lparr>st_size = 20, st_mtime = 101\<rparr>)]]"
  have b: "is_pdf_name ''b.pdf''" by code_simp
  have h1: "forget_denied_obj (fs_at denied_fs (resolve denied_fs sample_root)) = Directory None ?es"
    by (simp add: denied_fs_def)
  have h2: "no_failures ?es" by simp
  have y: "map fst (yielded (iter_pdf_files denied_fs sample_root 1)) =
       [sample_root @ [''a.pdf''], sample_root @ [''sub'', ''b.pdf'']]"
    by (simp add: iter_pdf_files_def denied_fs_def sample_names b)
  have v: "visited (iter_pdf_files denied_fs sample_root 1) =
       [sample_root, sample_root @ [''sub''], sample_root @ [''secret'']]"
    by (simp add: iter_pdf_files_def denied_fs_def sample_names b)
  from denied_listing_skipped [of denied_fs sample_root 1 ?es] h1 h2
  have "raised (iter_pdf_files denied_fs sample_root 1) = None
      \<and> (\<exists>rs. scan_pdfs denied_fs sample_root 1 = Inr rs)"
    by blast
  with h1 h2 y v show ?thesis by blast
qed

section \<open>Symbolic links and the number of listings\<close>

lemma without_symlinks_frame_simp:
  "without_symlinks_frame (p, ob, d) = (p, without_symlinks_obj ob, d)"
  by (simp add: without_symlinks_frame_def)

lemma scan_entries_without_symlinks:
  "scan_entries folder d depth (without_symlinks es) =
     (case scan_entries folder d depth es of
        (ys, fs, r) \<Rightarrow> (ys, map without_symlinks_frame fs, r))"
  by (induction es rule: without_symlinks.induct)
    (auto simp: without_symlinks_frame_simp split: prod.splits)

lemma walk_without_symlinks:
  "walk depth (map without_symlinks_frame stack) = walk depth stack"
proof (induction depth stack rule: walk.induct)
  case (1 depth)
  then show ?case by simp
next
  case (2 depth folder ob d stack)
  show ?case
  proof (cases "scandir ob")
    case (Inl e)
    then have e': "scandir (without_symlinks_obj ob) = Inl e"
      by (cases ob rule: scandir.cases) auto
    show ?thesis
    proof (cases "e = PermissionError")
      case True
      from "2.IH"(1) [OF Inl True] Inl e' True show ?thesis
        by (simp add: without_symlinks_frame_simp)
    next
      case False
      with Inl e' show ?thesis
        by (simp add: without_symlinks_frame_simp)
    qed
  next
    case (Inr es)
    then have e': "scandir (without_symlinks_obj ob) = Inr (without_symlinks es)"
      by (cases ob rule: scandir.cases) auto
    obtain ys fs r where sc: "scan_entries folder d depth es = (ys, fs, r)"
      by (cases "scan_entries folder d depth es") auto
    have sc': "scan_entries folder d depth (without_symlinks es) =
        (ys, map without_symlinks_frame fs, r)"
      by (simp add: scan_entries_without_symlinks sc)
    show ?thesis
    proof (cases r)
      case None
      from "2.IH"(2) [OF Inr sc [symmetric] refl None]
      have "walk depth (map without_symlinks_frame (rev fs @ stack)) = walk depth (rev fs @ stack)" .
      with Inr e' sc sc' None show ?thesis
        by (simp add: without_symlinks_frame_simp rev_map)
    next
      case (Some e)
      with Inr e' sc sc' show ?thesis
        by (simp add: without_symlinks_frame_simp)
    qed
  qed
qed

lemma iter_pdf_files_without_symlinks:
  "iter_pdf_files (fs\<lparr>fs_at := without_symlinks_obj \<circ> fs_at fs\<rparr>) root_path d =
   iter_pdf_files fs root_path d"
proof -
  have "walk depth [(p, without_symlinks_obj ob, 0)] = walk depth [(p, ob, 0)]" for depth p ob
    using walk_without_symlinks [of depth "[(p, ob, 0)]"]
    by (simp add: without_symlinks_frame_simp del: walk.simps)
  then show ?thesis
    by (simp add: iter_pdf_files_def Let_def del: walk.simps)
qed

lemma scan_entries_dirs:
  "scan_entries folder d depth es = (ys, fs, r) \<Longrightarrow> stack_dirs fs \<le> dir_count es"
proof (induction es arbitrary: ys fs r rule: dir_count.induct)
  case 1
  then show ?case by (simp add: stack_dirs_def)
qed (auto simp: stack_dirs_def split: prod.splits if_splits)

lemma stack_dirs_append: "stack_dirs (xs @ ys) = stack_dirs xs + stack_dirs ys"
  by (simp add: stack_dirs_def)

lemma stack_dirs_rev: "stack_dirs (rev xs) = stack_dirs xs"
  by (simp add: stack_dirs_def rev_map [symmetric])

lemma walk_visits_bounded:
  "length (visited (walk depth stack)) \<le> stack_dirs stack"
proof (induction depth stack rule: walk.induct)
  case (1 depth)
  then show ?case by simp
next
  case (2 depth folder ob d stack)
  have pos: "1 \<le> dir_count_obj ob" by (cases ob) simp_all
  show ?case
  proof (cases "scandir ob")
    case (Inl e)
    show ?thesis
    proof (cases "e = PermissionError")
      case True
      from "2.IH"(1) [OF Inl True] Inl True pos show ?thesis
        by (simp add: stack_dirs_def Let_def)
    next
      case False
      with Inl pos show ?thesis by (simp add: stack_dirs_def)
    qed
  next
    case (Inr es)
    then have ob: "ob = Directory None es"
      by (cases ob rule: scandir.cases) auto
    obtain ys fs r where sc: "scan_entries folder d depth es = (ys, fs, r)"
      by (cases "scan_entries folder d depth es") auto
    note le = scan_entries_dirs [OF sc]
    show ?thesis
    proof (cases r)
      case None
      from "2.IH"(2) [OF Inr sc [symmetric] refl None]
      have "length (visited (walk depth (rev fs @ stack))) \<le> stack_dirs (rev fs @ stack)" .
      with le have "length (visited (walk depth (rev fs @ stack))) \<le> dir_count es + stack_dirs stack"
        by (simp add: stack_dirs_append stack_dirs_rev)
      with ob sc None show ?thesis
        by (simp add: stack_dirs_def Let_def)
    next
      case (Some e)
      with ob sc show ?thesis by (simp add: stack_dirs_def)
    qed
  qed
qed

lemma scan_entries_frame:
  "scan_entries folder d depth es = (ys, fs, r) \<Longrightarrow> (p, ob, d') \<in> set fs \<Longrightarrow>
     \<exists>n \<in> set (dir_names es). p = folder @ [n]"
proof (induction es arbitrary: ys fs r rule: dir_names.induct)
  case 1
  then show ?case by simp
next
  case (2 n err cs es)
  obtain ys' fs' r' where sc: "scan_entries folder d depth es = (ys', fs', r')"
    by (cases "scan_entries folder d depth es") auto
  with "2.prems" have "(p, ob, d') \<in> set fs' \<or> p = folder @ [n]"
    by (auto split: if_splits)
  with "2.IH" [OF sc] show ?case by auto
next
  case (3 n st es)
  then show ?case by (auto split: prod.splits if_splits)
next
  case (4 n t es)
  then show ?case by auto
next
  case (5 n es)
  then show ?case by auto
next
  case (6 n e es)
  then show ?case by (auto split: if_splits)
qed

lemma scan_entries_frames:
  assumes "scan_entries folder d depth es = (ys, fs, r)"
  shows "set (map fst fs) \<subseteq> (\<lambda>n. folder @ [n]) ` set (dir_names es)"
proof
  fix p assume "p \<in> set (map fst fs)"
  then obtain ob d' where "(p, ob, d') \<in> set fs" by auto
  from scan_entries_frame [OF assms this] show "p \<in> (\<lambda>n. folder @ [n]) ` set (dir_names es)"
    by auto
qed

lemma scan_entries_distinct:
  "scan_entries folder d depth es = (ys, fs, r) \<Longrightarrow> distinct_dirs es \<Longrightarrow>
     distinct (map fst fs) \<and> list_all (\<lambda>fr. distinct_dirs_obj (fst (snd fr))) fs"
proof (induction es arbitrary: ys fs r rule: dir_names.induct)
  case 1
  then show ?case by simp
next
  case (2 n err cs es)
  obtain ys' fs' r' where sc: "scan_entries folder d depth es = (ys', fs', r')"
    by (cases "scan_entries folder d depth es") auto
  from "2.prems" have dd: "n \<notin> set (dir_names es)" "distinct_dirs cs" "distinct_dirs es"
    by simp_all
  from scan_entries_frames [OF sc] dd(1) have "folder @ [n] \<notin> set (map fst fs')"
    by auto
  with "2.IH" [OF sc dd(3)] "2.prems"(1) sc dd(2) show ?case
    by (auto split: if_splits)
qed (auto split: prod.splits if_splits)

lemma visited_prefix:
  "q \<in> set (visited (walk depth stack)) \<Longrightarrow> \<exists>p \<in> fst ` set stack. prefix p q"
proof (induction depth stack arbitrary: q rule: walk.induct)
  case (1 depth)
  then show ?case by simp
next
  case (2 depth folder ob d stack)
  show ?case
  proof (cases "scandir ob")
    case (Inl e)
    show ?thesis
    proof (cases "e = PermissionError")
      case True
      with Inl "2.prems" have "q = folder \<or> q \<in> set (visited (walk depth stack))"
        by (simp add: Let_def)
      with "2.IH"(1) [OF Inl True] show ?thesis by auto
    next
      case False
      with Inl "2.prems" show ?thesis by simp
    qed
  next
    case (Inr es)
    obtain ys fs r where sc: "scan_entries folder d depth es = (ys, fs, r)"
      by (cases "scan_entries folder d depth es") auto
    show ?thesis
    proof (cases r)
      case None
      with Inr sc "2.prems" have "q = folder \<or> q \<in> set (visited (walk depth (rev fs @ stack)))"
        by (simp add: Let_def)
      then show ?thesis
      proof
        assume "q = folder" then show ?thesis by simp
      next
        assume "q \<in> set (visited (walk depth (rev fs @ stack)))"
        from "2.IH"(2) [OF Inr sc [symmetric] refl None this]
        obtain p where p: "p \<in> fst ` set (rev fs @ stack)" and pq: "prefix p q" by blast
        from p have "p \<in> set (map fst fs) \<or> p \<in> fst ` set stack" by auto
        then show ?thesis
        proof
          assume "p \<in> set (map fst fs)"
          with scan_entries_frames [OF sc] obtain n where "p = folder @ [n]" by auto
          with pq have "prefix folder q" by (auto simp: prefix_def)
          then show ?thesis by simp
        next
          assume "p \<in> fst ` set stack"
          with pq show ?thesis by auto
        qed
      qed
    next
      case (Some e)
      with Inr sc "2.prems" show ?thesis by simp
    qed
  qed
qed

lemma separate_stack_tl: "separate_stack (fr # rest) \<Longrightarrow> separate_stack rest"
  by (auto simp: separate_stack_def pairwise_def)

lemma separate_stack_hd:
  assumes "separate_stack ((folder, ob, d) # rest)" and "p \<in> fst ` set rest"
  shows "\<not> prefix p folder" and "\<not> prefix folder p"
proof -
  from assms have ne: "p \<noteq> folder" by (auto simp: separate_stack_def)
  from assms have "pairwise (\<lambda>p q. \<not> prefix p q) (insert folder (fst ` set rest))"
    by (simp add: separate_stack_def)
  with assms(2) ne show "\<not> prefix p folder" and "\<not> prefix folder p"
    by (auto simp: pairwise_def)
qed

lemma separate_step:
  assumes sep: "separate_stack ((folder, Directory err es, d) # rest)"
    and sc: "scan_entries folder d depth es = (ys, fs, r)"
  shows "separate_stack (rev fs @ rest)"
    and "\<forall>p \<in> fst ` set (rev fs @ rest). \<not> prefix p folder"
proof -
  from sep have dd: "distinct_dirs es" by (simp add: separate_stack_def)
  note fs = scan_entries_distinct [OF sc dd]
  note rest = separate_stack_tl [OF sep]
  have shape: "\<exists>n. p = folder @ [n]" if "p \<in> fst ` set fs" for p
    using scan_entries_frames [OF sc] that by auto
  have nopre: "\<not> prefix p folder" if "p \<in> fst ` set fs" for p
    using shape [OF that] by auto
  have disj: "p \<notin> fst ` set rest" if "p \<in> fst ` set fs" for p
  proof
    assume "p \<in> fst ` set rest"
    from separate_stack_hd(2) [OF sep this] shape [OF that] show False by auto
  qed
  have pw: "\<not> prefix p q" if "p \<in> fst ` set (rev fs @ rest)" "q \<in> fst ` set (rev fs @ rest)" "p \<noteq> q" for p q
  proof -
    from that(1) have pc: "p \<in> fst ` set fs \<or> p \<in> fst ` set rest" by auto
    from that(2) have qc: "q \<in> fst ` set fs \<or> q \<in> fst ` set rest" by auto
    show ?thesis
    proof (cases "p \<in> fst ` set fs")
      case True
      then obtain n where p: "p = folder @ [n]" using shape by blast
      show ?thesis
      proof (cases "q \<in> fst ` set fs")
        case True
        then obtain m where "q = folder @ [m]" using shape by blast
        with p that(3) show ?thesis by auto
      next
        case False
        with qc have q: "q \<in> fst ` set rest" by simp
        show ?thesis
        proof
          assume "prefix p q"
          with p have "prefix folder q" by (auto simp: prefix_def)
          with separate_stack_hd(2) [OF sep q] show False by simp
        qed
      qed
    next
      case False
      with pc have p: "p \<in> fst ` set rest" by simp
      show ?thesis
      proof (cases "q \<in> fst ` set fs")
        case True
        then obtain m where q: "q = folder @ [m]" using shape by blast
        show ?thesis
        proof
          assume "prefix p q"
          with q that(3) have "prefix p folder" by (simp add: prefix_snoc)
          with separate_stack_hd(1) [OF sep p] show False by simp
        qed
      next
        case False
        with qc have q: "q \<in> fst ` set rest" by simp
        from rest p q that(3) show ?thesis
          by (auto simp: separate_stack_def pairwise_def)
      qed
    qed
  qed
  have d: "distinct (map fst (rev fs @ rest))"
    using fs rest disj by (auto simp: separate_stack_def distinct_rev rev_map [symmetric])
  have l: "list_all (\<lambda>fr. distinct_dirs_obj (fst (snd fr))) (rev fs @ rest)"
    using fs rest by (auto simp: separate_stack_def list_all_iff)
  from d l pw show "separate_stack (rev fs @ rest)"
    unfolding separate_stack_def pairwise_def by blast
  show "\<forall>p \<in> fst ` set (rev fs @ rest). \<not> prefix p folder"
  proof
    fix p assume "p \<in> fst ` set (rev fs @ rest)"
    then have "p \<in> fst ` set fs \<or> p \<in> fst ` set rest" by auto
    then show "\<not> prefix p folder"
      using nopre separate_stack_hd(1) [OF sep] by blast
  qed
qed

lemma walk_visited_distinct:
  "separate_stack stack \<Longrightarrow> distinct (visited (walk depth stack))"
proof (induction depth stack rule: walk.induct)
  case (1 depth)
  then show ?case by simp
next
  case (2 depth folder ob d stack)
  note sep = "2.prems"
  show ?case
  proof (cases "scandir ob")
    case (Inl e)
    show ?thesis
    proof (cases "e = PermissionError")
      case True
      have "folder \<notin> set (visited (walk depth stack))"
      proof
        assume "folder \<in> set (visited (walk depth stack))"
        from visited_prefix [OF this] obtain p where "p \<in> fst ` set stack" "prefix p folder"
          by blast
        with separate_stack_hd(1) [OF sep] show False by blast
      qed
      with "2.IH"(1) [OF Inl True separate_stack_tl [OF sep]] Inl True show ?thesis
        by (simp add: Let_def)
    next
      case False
      with Inl show ?thesis by simp
    qed
  next
    case (Inr es)
    then have ob: "ob = Directory None es"
      by (cases ob rule: scandir.cases) auto
    obtain ys fs r where sc: "scan_entries folder d depth es = (ys, fs, r)"
      by (cases "scan_entries folder d depth es") auto
    note st = separate_step [OF sep [unfolded ob] sc]
    show ?thesis
    proof (cases r)
      case None
      have "folder \<notin> set (visited (walk depth (rev fs @ stack)))"
      proof
        assume "folder \<in> set (visited (walk depth (rev fs @ stack)))"
        from visited_prefix [OF this] st(2) show False by blast
      qed
      with "2.IH"(2) [OF Inr sc [symmetric] refl None st(1)] Inr sc None show ?thesis
        by (simp add: Let_def)
    next
      case (Some e)
      with Inr sc show ?thesis by simp
    qed
  qed
qed

text \<open>
  C9. A symbolic link is neither a file nor a directory for the walk (both tests are made
  with \<open>follow_symlinks=False\<close>): removing every symbolic link from the tree, at all levels,
  changes nothing of what the walk yields, raises or lists. The walk is a total function
  (its termination is proved with the size of the trees on the stack as measure), it calls
  \<open>os.scandir\<close> at most once per real directory of the tree, whatever the targets of the
  symbolic links are, and it never lists the same folder twice when no directory holds two
  subdirectories of the same name.
\<close>

theorem symlinks_never_followed:
  "iter_pdf_files (fs\<lparr>fs_at := without_symlinks_obj \<circ> fs_at fs\<rparr>) root_path d =
     iter_pdf_files fs root_path d
   \<and> length (visited (iter_pdf_files fs root_path d))
       \<le> dir_count_obj (fs_at fs (resolve fs root_path))
   \<and> (distinct_dirs_obj (fs_at fs (resolve fs root_path))
        \<longrightarrow> distinct (visited (iter_pdf_files fs root_path d)))"
proof -
  have "length (visited (walk depth [(p, ob, 0)])) \<le> dir_count_obj ob" for depth p ob
    using walk_visits_bounded [of depth "[(p, ob, 0)]"]
    by (simp add: stack_dirs_def del: walk.simps)
  then have n: "length (visited (iter_pdf_files fs root_path d))
       \<le> dir_count_obj (fs_at fs (resolve fs root_path))"
    by (simp add: iter_pdf_files_def Let_def del: walk.simps)
  have "distinct (visited (walk depth [(p, ob, 0)]))" if "distinct_dirs_obj ob" for depth p ob
    using that walk_visited_distinct [of "[(p, ob, 0)]" depth]
    by (simp add: separate_stack_def del: walk.simps)
  then have "distinct_dirs_obj (fs_at fs (resolve fs root_path))
      \<longrightarrow> distinct (visited (iter_pdf_files fs root_path d))"
    by (simp add: iter_pdf_files_def Let_def del: walk.simps)
  with n iter_pdf_files_without_symlinks [of fs root_path d] show ?thesis by simp
qed

theorem symlinks_never_followed_witness:
  "distinct_dirs_obj (fs_at sample_fs (resolve sample_fs sample_root))
   \<and> distinct (visited (iter_pdf_files sample_fs sample_root 2))
   \<and> visited (iter_pdf_files sample_fs sample_root 2) =
       [sample_root, sample_root @ [''sub''], sample_root @ [''sub'', ''deep'']]
   \<and> dir_count_obj (fs_at sample_fs (resolve sample_fs sample_root)) = 3
   \<and> iter_pdf_files (sample_fs\<lparr>fs_at := without_symlinks_obj \<circ> fs_at sample_fs\<rparr>)
         sample_root 2 =
       iter_pdf_files sample_fs sample_root 2"
proof -
  have h: "distinct_dirs_obj (fs_at sample_fs (resolve sample_fs sample_root))"
    by (simp add: sample_fs_def sample_tree_def)
  have c: "dir_count_obj (fs_at sample_fs (resolve sample_fs sample_root)) = 3"
    by (simp add: sample_fs_def sample_tree_def)
  have v: "visited (iter_pdf_files sample_fs sample_root 2) =
       [sample_root, sample_root @ [''sub''], sample_root @ [''sub'', ''deep'']]"
    by (simp add: sample_walk_2)
  from symlinks_never_followed [of sample_fs sample_root 2] h c v show ?thesis by blast
qed

section \<open>The relative directory of a record\<close>

lemma rel_dir_below_root:
  "safe_relpath (parent (root_path @ dirs @ [n])) root_path = path_str dirs"
  by (simp add: safe_relpath_def relative_to_def parent_def butlast_append)

lemma rel_dir_outside_root:
  "take (length root_path) (parent p) \<noteq> root_path \<Longrightarrow>
     safe_relpath (parent p) root_path = path_str (parent p)"
  by (simp add: safe_relpath_def relative_to_def)

text \<open>
  C3 at a root given through a symbolic link. The walk resolves its own copy of the root,
  while \<open>scan_pdfs\<close> hands the root as given to \<open>_safe_relpath\<close>: the parent of every
  yielded path lies below the resolved root, \<open>relative_to\<close> fails, and the record of a file
  that sits directly in the root carries the absolute path of the resolved root as its
  relative directory, not the empty string.
\<close>

theorem rel_dir_of_symlinked_root:
  "scan_pdfs symlinked_fs [''/'', ''tmp'', ''docs''] 0 =
     Inr [\<lparr>index = 1, rel_dir = ''/private/tmp/docs'', filename = ''a.pdf'',
           size_bytes = 10, size_mb = human_mb 10,
           full_path = ''/private/tmp/docs/a.pdf'', mtime = ''2024-01-01 00:00:00''\<rparr>]"
proof -
  have w: "iter_pdf_files symlinked_fs [''/'', ''tmp'', ''docs''] 0 =
      \<lparr>yielded = [([''/'', ''private'', ''tmp'', ''docs'', ''a.pdf''],
                    Some \<lparr>st_size = 10, st_mtime = 100\<rparr>)],
       raised = None, visited = [[''/'', ''private'', ''tmp'', ''docs'']]\<rparr>"
    by (simp add: iter_pdf_files_def symlinked_fs_def sample_names)
  have t: "strftime_local symlinked_fs 100 = ''2024-01-01 00:00:00''"
    by (simp add: symlinked_fs_def)
  show ?thesis
    unfolding scan_pdfs_def w
    by (simp add: Let_def t renumber_def name_def parent_def safe_relpath_def relative_to_def)
qed

end
